theory Spec2Isabelle
  imports Main "HOL-Library.Word" "HOL-Library.Multiset"
begin

unbundle bit_operations_syntax

section \<open>Package consistenthash: the hash ring\<close>

text \<open>
  Go strings are byte sequences, so a Go \<^verbatim>\<open>string\<close> and a \<^verbatim>\<open>[]byte\<close> are both a
  \<^typ>\<open>string\<close> here and the conversion \<^verbatim>\<open>[]byte(s)\<close> is the identity. Go's \<^verbatim>\<open>int\<close> is
  taken to be 64 bits wide, so \<^verbatim>\<open>int(h)\<close> of a \<^verbatim>\<open>uint32\<close> is the non-negative number
  \<^term>\<open>uint h\<close> and ring points are modelled as \<^typ>\<open>int\<close>.
\<close>

type_synonym Hash = "string \<Rightarrow> 32 word"

subsection \<open>Library functions the ring calls\<close>

text \<open>\<^verbatim>\<open>crc32.ChecksumIEEE\<close>: the reflected CRC-32 with polynomial \<^verbatim>\<open>0xedb88320\<close>,
  initial value and final complement \<^verbatim>\<open>0xffffffff\<close>, one byte at a time.\<close>

definition crc_shift :: "32 word \<Rightarrow> 32 word" where
  "crc_shift c = (if bit c 0 then drop_bit 1 c XOR 0xEDB88320 else drop_bit 1 c)"

definition crc_update :: "32 word \<Rightarrow> char \<Rightarrow> 32 word" where
  "crc_update c b = (crc_shift ^^ 8) (c XOR of_nat (of_char b))"

definition ChecksumIEEE :: Hash where
  "ChecksumIEEE data = NOT (foldl crc_update 0xFFFFFFFF data)"

text \<open>\<^verbatim>\<open>strconv.Itoa\<close> on the non-negative loop counter: decimal digits, most
  significant first.\<close>

definition digit_char :: "nat \<Rightarrow> char" where
  "digit_char d = char_of (of_char CHR ''0'' + d)"

fun Itoa :: "nat \<Rightarrow> string" where
  "Itoa n = (if n < 10 then [digit_char n] else Itoa (n div 10) @ [digit_char (n mod 10)])"

declare Itoa.simps [simp del]

text \<open>\<^verbatim>\<open>sort.Search(n, f)\<close>: the binary search of the standard library, with its
  loop \<^verbatim>\<open>for i < j { h := (i+j)/2; if !f(h) { i = h+1 } else { j = h } }\<close>.\<close>

function Search_loop :: "(nat \<Rightarrow> bool) \<Rightarrow> nat \<Rightarrow> nat \<Rightarrow> nat" where
  "Search_loop f i j =
     (if i < j
      then (if \<not> f ((i + j) div 2)
            then Search_loop f ((i + j) div 2 + 1) j
            else Search_loop f i ((i + j) div 2))
      else i)"
  by pat_completeness auto
termination
  by (relation "measure (\<lambda>(f, i, j). j - i)") auto

declare Search_loop.simps [simp del]

definition Search :: "nat \<Rightarrow> (nat \<Rightarrow> bool) \<Rightarrow> nat" where
  "Search n f = Search_loop f 0 n"

subsection \<open>The ring\<close>

text \<open>\<^verbatim>\<open>type Map struct { hash; replicates; keys []int; hashMap map[int]string }\<close>.
  The fields are unexported and \<^verbatim>\<open>New\<close> is the only constructor, so \<^verbatim>\<open>hashMap\<close> is
  never the nil map.\<close>

record Map_ring =
  hash :: Hash
  replicates :: int
  keys :: "int list"
  hashMap :: "int \<rightharpoonup> string"

text \<open>Reading a Go map at an absent key gives the zero value, the empty string.\<close>

definition map_index :: "(int \<rightharpoonup> string) \<Rightarrow> int \<Rightarrow> string" where
  "map_index hm k = (case hm k of None \<Rightarrow> [] | Some v \<Rightarrow> v)"

definition New :: "int \<Rightarrow> Hash option \<Rightarrow> Map_ring" where
  "New replicats fn =
     \<lparr>hash = (case fn of None \<Rightarrow> ChecksumIEEE | Some f \<Rightarrow> f),
      replicates = replicats,
      keys = [],
      hashMap = Map.empty\<rparr>"

text \<open>One pass of the inner loop of \<^verbatim>\<open>Add\<close>: replica \<open>i\<close> of node \<open>key\<close>.\<close>

definition add_replica :: "string \<Rightarrow> Map_ring \<Rightarrow> nat \<Rightarrow> Map_ring" where
  "add_replica key m i =
     (let h = uint (hash m (Itoa i @ key))
      in m\<lparr>keys := keys m @ [h], hashMap := (hashMap m)(h \<mapsto> key)\<rparr>)"

text \<open>The inner loop \<^verbatim>\<open>for i := 0; i < m.replicates; i++\<close>; it does not run when
  \<^verbatim>\<open>replicates\<close> is zero or negative.\<close>

definition add_node :: "Map_ring \<Rightarrow> string \<Rightarrow> Map_ring" where
  "add_node m key = foldl (add_replica key) m [0..<nat (replicates m)]"

definition Add :: "Map_ring \<Rightarrow> string list \<Rightarrow> Map_ring" where
  "Add m ks = (let m' = foldl add_node m ks in m'\<lparr>keys := sort (keys m')\<rparr>)"

definition Get :: "Map_ring \<Rightarrow> string \<Rightarrow> string" where
  "Get m key =
     (if length (keys m) = 0 then []
      else
        (let h = uint (hash m key);
             idx = Search (length (keys m)) (\<lambda>i. keys m ! i \<ge> h)
         in map_index (hashMap m) (keys m ! (idx mod length (keys m)))))"

section \<open>The peer client and the coordinator\<close>

subsection \<open>Library functions\<close>

text \<open>\<^verbatim>\<open>strings.HasPrefix\<close>.\<close>

definition HasPrefix :: "string \<Rightarrow> string \<Rightarrow> bool" where
  "HasPrefix s pre = (length pre \<le> length s \<and> take (length pre) s = pre)"

text \<open>\<^verbatim>\<open>strings.SplitN(s, sep, n)\<close> for a one-byte separator and \<open>n \<ge> 0\<close>: at most
  \<open>n\<close> substrings, the last one the unsplit remainder; \<open>n = 0\<close> gives no substring.\<close>

fun SplitN :: "string \<Rightarrow> char \<Rightarrow> nat \<Rightarrow> string list" where
  "SplitN s sep 0 = []"
| "SplitN s sep (Suc 0) = [s]"
| "SplitN s sep (Suc (Suc n)) =
     (if sep \<in> set s
      then takeWhile (\<lambda>c. c \<noteq> sep) s # SplitN (tl (dropWhile (\<lambda>c. c \<noteq> sep) s)) sep (Suc n)
      else [s])"

text \<open>\<^verbatim>\<open>url.QueryEscape\<close>: letters, digits and \<^verbatim>\<open>-_.~\<close> are kept, a space becomes
  \<^verbatim>\<open>+\<close>, every other byte becomes \<^verbatim>\<open>%XX\<close> in upper-case hexadecimal.\<close>

definition upperhex :: "nat \<Rightarrow> char" where
  "upperhex d = (''0123456789ABCDEF'' ! d)"

definition unreserved :: "char \<Rightarrow> bool" where
  "unreserved c =
     (let n = (of_char c :: nat)
      in (97 \<le> n \<and> n \<le> 122) \<or> (65 \<le> n \<and> n \<le> 90) \<or> (48 \<le> n \<and> n \<le> 57)
         \<or> c \<in> set ''-_.~'')"

definition escape_byte :: "char \<Rightarrow> string" where
  "escape_byte c =
     (if unreserved c then [c]
      else if c = CHR '' '' then ''+''
      else [CHR ''%'', upperhex (of_char c div 16), upperhex (of_char c mod 16)])"

definition QueryEscape :: "string \<Rightarrow> string" where
  "QueryEscape s = concat (map escape_byte s)"

subsection \<open>The peer client \<^verbatim>\<open>httpGetter\<close>\<close>

text \<open>A Go \<^verbatim>\<open>error\<close> is modelled by its message; \<open>None\<close> is \<^verbatim>\<open>nil\<close>.\<close>

type_synonym error = string

record pb_Request =
  Group :: string
  Key :: string

record pb_Response =
  Value :: string

text \<open>What the client sees of an \<^verbatim>\<open>*http.Response\<close>: the status code, the status
  text, and what \<^verbatim>\<open>ioutil.ReadAll(res.Body)\<close> returns, the bytes read and the error that
  stopped the reading, if any.\<close>

record http_Response =
  StatusCode :: int
  Status :: string
  ReadAll_Body :: "string \<times> error option"

text \<open>The network and the protobuf decoder are outside the repository; they are
  parameters: \<^verbatim>\<open>http.Get\<close> and \<^verbatim>\<open>proto.Unmarshal\<close>.\<close>

record client_env =
  http_Get :: "string \<Rightarrow> error + http_Response"
  Unmarshal :: "string \<Rightarrow> error + pb_Response"

record httpGetter =
  baseURL :: string

text \<open>\<^verbatim>\<open>httpGetter.Get(in, out)\<close>: the result is the returned error, or \<open>Inr\<close> of the
  message decoded into \<^verbatim>\<open>out\<close> when \<^verbatim>\<open>nil\<close> is returned. The source assigns the result
  of \<^verbatim>\<open>proto.Unmarshal\<close> to the variable \<^verbatim>\<open>err\<close> that \<^verbatim>\<open>ioutil.ReadAll\<close> has just set,
  and tests \<^verbatim>\<open>err\<close> twice afterwards; the model keeps the assignment and both tests.\<close>

definition httpGetter_Get :: "client_env \<Rightarrow> httpGetter \<Rightarrow> pb_Request \<Rightarrow> error + pb_Response" where
  "httpGetter_Get env h req =
     (let u = baseURL h @ QueryEscape (Group req) @ ''/'' @ QueryEscape (Key req)
      in case http_Get env u of
           Inl err \<Rightarrow> Inl err
         | Inr res \<Rightarrow>
             if StatusCode res \<noteq> 200 then Inl (''server returned: '' @ Status res)
             else
               (let (bytes, err) = ReadAll_Body res;
                    decoded = Unmarshal env bytes;
                    err = (case decoded of Inl e \<Rightarrow> Some e | Inr _ \<Rightarrow> None)
                in if err \<noteq> None then Inl (''decoding response body: '' @ the err)
                   else if err \<noteq> None then Inl (''reading response body: '' @ the err)
                   else (case decoded of Inr out \<Rightarrow> Inr out | Inl e \<Rightarrow> Inl e)))"

subsection \<open>The coordinator \<^verbatim>\<open>HTTPPool\<close>\<close>

definition defaultBasePath :: string where
  "defaultBasePath = ''/_cache/''"

definition defaultReplicate :: int where
  "defaultReplicate = 50"

text \<open>\<^verbatim>\<open>peers\<close> is a pointer, \<^verbatim>\<open>nil\<close> until \<^verbatim>\<open>Set\<close> is called; \<^verbatim>\<open>httpGetters\<close> maps a
  node to a pointer to its client. The mutex is not modelled: every operation runs
  alone. The log lines written by \<^verbatim>\<open>Log\<close> are not modelled either.\<close>

record HTTPPool =
  self :: string
  basePath :: string
  peers :: "Map_ring option"
  httpGetters :: "string \<rightharpoonup> httpGetter"

definition NewHttpPool :: "string \<Rightarrow> HTTPPool" where
  "NewHttpPool slf = \<lparr>self = slf, basePath = defaultBasePath, peers = None, httpGetters = Map.empty\<rparr>"

definition Set_peers :: "HTTPPool \<Rightarrow> string list \<Rightarrow> HTTPPool" where
  "Set_peers p ps =
     p\<lparr>peers := Some (Add (New defaultReplicate None) ps),
       httpGetters := foldl (\<lambda>g peer. g(peer \<mapsto> \<lparr>baseURL = peer @ basePath p\<rparr>)) Map.empty ps\<rparr>"

text \<open>A panic is a value: the message of an explicit \<^verbatim>\<open>panic\<close>, or the run-time error of
  a nil dereference.\<close>

datatype panic = Panic string | NilDereference

text \<open>\<^verbatim>\<open>PickPeer\<close> returns an interface value and a flag. The interface value is
  \<open>None\<close> for \<^verbatim>\<open>nil\<close> and for the nil pointer that reading \<^verbatim>\<open>httpGetters\<close> at an absent
  node gives. Calling \<^verbatim>\<open>Get\<close> through a nil \<^verbatim>\<open>peers\<close> pointer reads \<^verbatim>\<open>m.keys\<close> and
  panics.\<close>

definition PickPeer :: "HTTPPool \<Rightarrow> string \<Rightarrow> panic + (httpGetter option \<times> bool)" where
  "PickPeer p key =
     (case peers p of
        None \<Rightarrow> Inl NilDereference
      | Some m \<Rightarrow>
          (let peer = Get m key
           in if peer \<noteq> [] \<and> peer \<noteq> self p then Inr (httpGetters p peer, True)
              else Inr (None, False)))"

subsection \<open>The server face\<close>

record Request =
  Method :: string
  Path :: string

record Response =
  Code :: nat
  Header :: "(string \<times> string) list"
  Body :: string

text \<open>\<^verbatim>\<open>http.Error(w, msg, code)\<close>: a plain-text reply, the message and a newline.\<close>

definition http_Error :: "string \<Rightarrow> nat \<Rightarrow> Response" where
  "http_Error msg code =
     \<lparr>Code = code,
      Header = [(''Content-Type'', ''text/plain; charset=utf-8''),
                (''X-Content-Type-Options'', ''nosniff'')],
      Body = msg @ [CHR 0x0A]\<rparr>"

text \<open>The group registry, the groups and the protobuf encoder are outside the
  repository: \<^verbatim>\<open>GetGroup\<close> gives \<open>None\<close> for \<^verbatim>\<open>nil\<close>, a group is its \<^verbatim>\<open>Get\<close> (the bytes of
  the view or an error), and \<^verbatim>\<open>Marshal\<close> encodes a \<^verbatim>\<open>pb.Response\<close>.\<close>

record server_env =
  GetGroup :: "string \<Rightarrow> (string \<Rightarrow> error + string) option"
  Marshal :: "pb_Response \<Rightarrow> error + string"

text \<open>\<^verbatim>\<open>ServeHTTP\<close>: the handler either panics or leaves one response in the writer.\<close>

definition ServeHTTP :: "server_env \<Rightarrow> HTTPPool \<Rightarrow> Request \<Rightarrow> panic + Response" where
  "ServeHTTP env p r =
     (if \<not> HasPrefix (Path r) (basePath p)
      then Inl (Panic (''HTTPPool serving unexpected path: '' @ Path r))
      else
        (let parts = SplitN (drop (length (basePath p)) (Path r)) CHR ''/'' 2
         in if length parts \<noteq> 2 then Inr (http_Error ''bad request'' 400)
            else
              (let groupName = parts ! 0; key = parts ! 1
               in case GetGroup env groupName of
                    None \<Rightarrow> Inr (http_Error (''no such group: '' @ groupName) 404)
                  | Some grp \<Rightarrow>
                      (case grp key of
                         Inl err \<Rightarrow> Inr (http_Error err 500)
                       | Inr view \<Rightarrow>
                           (case Marshal env \<lparr>Value = view\<rparr> of
                              Inl err \<Rightarrow> Inr (http_Error err 500)
                            | Inr body \<Rightarrow>
                                Inr \<lparr>Code = 200,
                                     Header = [(''Content-Type'', ''application/octet-stream'')],
                                     Body = body\<rparr>)))))"

section \<open>Notions the properties are stated with\<close>

text \<open>The points \<^verbatim>\<open>Add\<close> places for one node: the hashes of its replica names
  \<^verbatim>\<open>strconv.Itoa(i) + key\<close>, in the order of the loop.\<close>

definition points :: "Hash \<Rightarrow> int \<Rightarrow> string \<Rightarrow> int list" where
  "points fn r node = map (\<lambda>i. uint (fn (Itoa i @ node))) [0..<nat r]"

text \<open>The point a lookup lands on: \<^verbatim>\<open>m.keys[idx%len(m.keys)]\<close> in \<^verbatim>\<open>Get\<close>.\<close>

definition ring_point :: "Map_ring \<Rightarrow> string \<Rightarrow> int" where
  "ring_point m key =
     keys m ! (Search (length (keys m)) (\<lambda>i. keys m ! i \<ge> uint (hash m key)) mod length (keys m))"

text \<open>The node identifiers a ring can return: none while it has no point (the result
  is then the sentinel), and every result of \<^verbatim>\<open>Get\<close> otherwise.\<close>

definition ring_nodes :: "Map_ring \<Rightarrow> string set" where
  "ring_nodes m = (if keys m = [] then {} else range (Get m))"

text \<open>The weight of a node: the number of entries of the point list bound to it.\<close>

definition weight :: "Map_ring \<Rightarrow> string \<Rightarrow> nat" where
  "weight m node = length (filter (\<lambda>k. hashMap m k = Some node) (keys m))"

section \<open>Inputs of the worked examples\<close>

text \<open>Two hash functions a caller can pass to \<^verbatim>\<open>New\<close>: the length of the data and
  the sum of its bytes.\<close>

definition lenHash :: Hash where
  "lenHash data = of_nat (length data)"

definition byteSum :: Hash where
  "byteSum data = of_nat (sum_list (map of_char data))"

text \<open>A registry with one group, \<^verbatim>\<open>scores\<close>, that knows the key \<^verbatim>\<open>Tom\<close> and the key
  \<^verbatim>\<open>2024/Tom\<close>, and a stand-in for the protobuf codec of \<^verbatim>\<open>pb.Response\<close>: the empty
  value is the empty encoding, a value shorter than 128 bytes is a tag byte, a length
  byte and the value.\<close>

definition scores :: "string \<Rightarrow> error + string" where
  "scores key =
     (if key = ''Tom'' then Inr ''630''
      else if key = ''2024/Tom'' then Inr ''589''
      else Inl (key @ '' not exist''))"

definition example_Marshal :: "pb_Response \<Rightarrow> error + string" where
  "example_Marshal m =
     (if Value m = [] then Inr []
      else if length (Value m) < 128
      then Inr (CHR 0x0A # char_of (length (Value m)) # Value m)
      else Inl ''value too long'')"

definition example_Unmarshal :: "string \<Rightarrow> error + pb_Response" where
  "example_Unmarshal bs =
     (case bs of
        [] \<Rightarrow> Inr \<lparr>Value = []\<rparr>
      | [t] \<Rightarrow> Inl ''unexpected EOF''
      | t # l # v \<Rightarrow>
          if t = CHR 0x0A \<and> of_char l = length v then Inr \<lparr>Value = v\<rparr>
          else Inl ''cannot parse invalid wire-format data'')"

definition example_server :: server_env where
  "example_server =
     \<lparr>GetGroup = (\<lambda>name. if name = ''scores'' then Some scores else None),
      Marshal = example_Marshal\<rparr>"

text \<open>A peer that answers \<^verbatim>\<open>200 OK\<close> and whose body breaks off while it is read: with
  no byte delivered, and after the first byte.\<close>

definition broken_body :: "string \<Rightarrow> client_env" where
  "broken_body delivered =
     \<lparr>http_Get = (\<lambda>u. Inr \<lparr>StatusCode = 200, Status = ''200 OK'',
                           ReadAll_Body = (delivered, Some ''unexpected EOF'')\<rparr>),
      Unmarshal = example_Unmarshal\<rparr>"

section \<open>Facts about the binary search\<close>

lemma Search_loop_spec:
  fixes xs :: "int list"
  assumes "sorted xs"
  shows "i \<le> j \<Longrightarrow> j \<le> length xs \<Longrightarrow> \<forall>k<i. xs ! k < h \<Longrightarrow>
     \<forall>k. j \<le> k \<and> k < length xs \<longrightarrow> h \<le> xs ! k \<Longrightarrow>
     Search_loop (\<lambda>i. h \<le> xs ! i) i j \<le> length xs \<and>
     (\<forall>k < Search_loop (\<lambda>i. h \<le> xs ! i) i j. xs ! k < h) \<and>
     (\<forall>k. Search_loop (\<lambda>i. h \<le> xs ! i) i j \<le> k \<and> k < length xs \<longrightarrow> h \<le> xs ! k)"
proof (induction "\<lambda>i. h \<le> xs ! i" i j rule: Search_loop.induct)
  case (1 i j)
  let ?m = "(i + j) div 2"
  show ?case
  proof (cases "i < j")
    case False
    then have "i = j" using "1.prems" by simp
    then show ?thesis
      using "1.prems" by (subst (1 2 3) Search_loop.simps) simp
  next
    case True
    then have mlt: "?m < j" "i \<le> ?m" by auto
    show ?thesis
    proof (cases "h \<le> xs ! ?m")
      case True
      have "\<forall>k. ?m \<le> k \<and> k < length xs \<longrightarrow> h \<le> xs ! k"
        using True assms by (meson order_trans sorted_nth_mono)
      with "1.hyps"(2)[OF \<open>i < j\<close>] True mlt "1.prems" \<open>i < j\<close> show ?thesis
        by (subst (1 2 3) Search_loop.simps) simp
    next
      case False
      have "\<forall>k<?m + 1. xs ! k < h"
      proof (intro allI impI)
        fix k assume "k < ?m + 1"
        then have "xs ! k \<le> xs ! ?m" using assms mlt "1.prems" 
          by (intro sorted_nth_mono) auto
        with False show "xs ! k < h" by simp
      qed
      with "1.hyps"(1)[OF \<open>i < j\<close>] False mlt "1.prems" \<open>i < j\<close> show ?thesis
        by (subst (1 2 3) Search_loop.simps) simp
    qed
  qed
qed

lemma Search_spec:
  fixes xs :: "int list"
  assumes "sorted xs"
  shows "Search (length xs) (\<lambda>i. h \<le> xs ! i) \<le> length xs"
    and "k < Search (length xs) (\<lambda>i. h \<le> xs ! i) \<Longrightarrow> xs ! k < h"
    and "Search (length xs) (\<lambda>i. h \<le> xs ! i) \<le> k \<Longrightarrow> k < length xs \<Longrightarrow> h \<le> xs ! k"
proof -
  let ?r = "Search_loop (\<lambda>i. h \<le> xs ! i) 0 (length xs)"
  have "?r \<le> length xs \<and> (\<forall>k < ?r. xs ! k < h) \<and>
      (\<forall>k. ?r \<le> k \<and> k < length xs \<longrightarrow> h \<le> xs ! k)"
    by (rule Search_loop_spec[OF assms]) simp_all
  then have a: "?r \<le> length xs" and b: "\<forall>k < ?r. xs ! k < h"
    and c: "\<forall>k. ?r \<le> k \<and> k < length xs \<longrightarrow> h \<le> xs ! k"
    by blast+
  show "Search (length xs) (\<lambda>i. h \<le> xs ! i) \<le> length xs"
    unfolding Search_def by (rule a)
  show "k < Search (length xs) (\<lambda>i. h \<le> xs ! i) \<Longrightarrow> xs ! k < h"
    unfolding Search_def using b by blast
  show "Search (length xs) (\<lambda>i. h \<le> xs ! i) \<le> k \<Longrightarrow> k < length xs \<Longrightarrow> h \<le> xs ! k"
    unfolding Search_def using c by blast
qed

text \<open>The point a sorted, non-empty point list gives for a hash: the least point at or
  above the hash, and the least point of all when there is none.\<close>

lemma search_point_Min:
  fixes ks :: "int list"
  assumes "sorted ks" "ks \<noteq> []"
  shows "ks ! (Search (length ks) (\<lambda>i. h \<le> ks ! i) mod length ks) =
     (if \<exists>k\<in>set ks. h \<le> k then Min {k \<in> set ks. h \<le> k} else Min (set ks))"
proof -
  let ?r = "Search (length ks) (\<lambda>i. h \<le> ks ! i)"
  note sp = Search_spec[OF assms(1), where h=h]
  show ?thesis
  proof (cases "?r < length ks")
    case True
    then have ge: "h \<le> ks ! ?r" using sp(3)[of ?r] by simp
    have mem: "ks ! ?r \<in> {k \<in> set ks. h \<le> k}" using True ge by simp
    have least: "ks ! ?r \<le> x" if "x \<in> {k \<in> set ks. h \<le> k}" for x
    proof -
      from that obtain j where j: "j < length ks" "x = ks ! j" "h \<le> ks ! j"
        by (auto simp: in_set_conv_nth)
      then have "?r \<le> j" using sp(2)[of j] by (meson not_less)
      then show ?thesis using assms(1) j by (simp add: sorted_nth_mono)
    qed
    have "Min {k \<in> set ks. h \<le> k} = ks ! ?r"
      by (rule Min_eqI) (use mem least in auto)
    moreover have "\<exists>k\<in>set ks. h \<le> k" using mem by auto
    ultimately show ?thesis using True by simp
  next
    case False
    then have r: "?r = length ks" using sp(1) by simp
    then have none: "\<not> (\<exists>k\<in>set ks. h \<le> k)"
      using sp(2) by (fastforce simp: in_set_conv_nth)
    have "Min (set ks) = ks ! 0"
    proof (rule Min_eqI)
      show "ks ! 0 \<in> set ks" using assms(2) by simp
      show "ks ! 0 \<le> y" if "y \<in> set ks" for y
        using that assms by (auto simp: in_set_conv_nth sorted_nth_mono)
    qed simp
    then show ?thesis using none r by simp
  qed
qed

lemma search_point_in_set:
  fixes ks :: "int list"
  assumes "ks \<noteq> []"
  shows "ks ! (Search (length ks) (\<lambda>i. h \<le> ks ! i) mod length ks) \<in> set ks"
  using assms by simp

lemma search_point_subset:
  fixes as bs :: "int list"
  assumes "sorted as" "sorted bs" "set bs \<subseteq> set as"
    and "as ! (Search (length as) (\<lambda>i. h \<le> as ! i) mod length as) \<in> set bs"
  shows "bs ! (Search (length bs) (\<lambda>i. h \<le> bs ! i) mod length bs) =
         as ! (Search (length as) (\<lambda>i. h \<le> as ! i) mod length as)"
proof -
  let ?p = "as ! (Search (length as) (\<lambda>i. h \<le> as ! i) mod length as)"
  have ne: "bs \<noteq> []" "as \<noteq> []" using assms(3,4) by auto
  note A = search_point_Min[OF assms(1) ne(2), where h=h]
  note B = search_point_Min[OF assms(2) ne(1), where h=h]
  show ?thesis
  proof (cases "\<exists>k\<in>set as. h \<le> k")
    case True
    then have p: "?p = Min {k \<in> set as. h \<le> k}" using A by simp
    have fin: "finite {k \<in> set as. h \<le> k}" "{k \<in> set as. h \<le> k} \<noteq> {}" using True by auto
    have hp: "h \<le> ?p" using Min_in[OF fin] p by simp
    have ex: "\<exists>k\<in>set bs. h \<le> k" using hp assms(4) by blast
    have "Min {k \<in> set bs. h \<le> k} = ?p"
    proof (rule Min_eqI)
      show "?p \<in> {k \<in> set bs. h \<le> k}" using hp assms(4) by simp
      show "?p \<le> y" if "y \<in> {k \<in> set bs. h \<le> k}" for y
      proof -
        have "y \<in> {k \<in> set as. h \<le> k}" using that assms(3) by auto
        then show ?thesis unfolding p using fin(1) by (rule Min_le[rotated])
      qed
    qed simp
    with ex B show ?thesis by simp
  next
    case False
    then have p: "?p = Min (set as)" using A by simp
    have none: "\<not> (\<exists>k\<in>set bs. h \<le> k)" using False assms(3) by blast
    have "Min (set bs) = ?p"
    proof (rule Min_eqI)
      show "?p \<in> set bs" by (rule assms(4))
      show "?p \<le> y" if "y \<in> set bs" for y
        unfolding p using that assms(3) by (intro Min_le) auto
    qed simp
    with none B show ?thesis by simp
  qed
qed

section \<open>Facts about \<^verbatim>\<open>Add\<close>\<close>

lemma add_replica_fields [simp]:
  "hash (add_replica key m i) = hash m"
  "replicates (add_replica key m i) = replicates m"
  "keys (add_replica key m i) = keys m @ [uint (hash m (Itoa i @ key))]"
  "hashMap (add_replica key m i) = (hashMap m)(uint (hash m (Itoa i @ key)) \<mapsto> key)"
  by (simp_all add: add_replica_def Let_def)

lemma foldl_add_replica_hash [simp]:
  "hash (foldl (add_replica key) m js) = hash m"
  by (induction js rule: rev_induct) simp_all

lemma foldl_add_replica_replicates [simp]:
  "replicates (foldl (add_replica key) m js) = replicates m"
  by (induction js rule: rev_induct) simp_all

lemma foldl_add_replica_keys:
  "keys (foldl (add_replica key) m js) = keys m @ map (\<lambda>i. uint (hash m (Itoa i @ key))) js"
  by (induction js rule: rev_induct) simp_all

lemma foldl_add_replica_hashMap:
  "hashMap (foldl (add_replica key) m js) p =
     (if p \<in> set (map (\<lambda>i. uint (hash m (Itoa i @ key))) js) then Some key else hashMap m p)"
  by (induction js rule: rev_induct) simp_all

lemma add_node_hash [simp]: "hash (add_node m key) = hash m"
  by (simp add: add_node_def)

lemma add_node_replicates [simp]: "replicates (add_node m key) = replicates m"
  by (simp add: add_node_def)

lemma add_node_keys: "keys (add_node m key) = keys m @ points (hash m) (replicates m) key"
  by (simp add: add_node_def points_def foldl_add_replica_keys)

lemma add_node_hashMap:
  "hashMap (add_node m key) p =
     (if p \<in> set (points (hash m) (replicates m) key) then Some key else hashMap m p)"
  by (simp only: add_node_def points_def foldl_add_replica_hashMap)

lemma foldl_add_node_hash [simp]:
  "hash (foldl add_node m ks) = hash m"
  by (induction ks rule: rev_induct) simp_all

lemma foldl_add_node_replicates [simp]:
  "replicates (foldl add_node m ks) = replicates m"
  by (induction ks rule: rev_induct) simp_all

lemma foldl_add_node_keys:
  "keys (foldl add_node m ks) = keys m @ concat (map (points (hash m) (replicates m)) ks)"
  by (induction ks rule: rev_induct) (simp_all add: add_node_keys)

lemma foldl_add_node_hashMap_snoc:
  "hashMap (foldl add_node m (ks @ [k])) p =
     (if p \<in> set (points (hash m) (replicates m) k) then Some k
      else hashMap (foldl add_node m ks) p)"
  by (simp add: add_node_hashMap)

lemma Add_hash [simp]: "hash (Add m ks) = hash m"
  by (simp add: Add_def Let_def)

lemma Add_replicates [simp]: "replicates (Add m ks) = replicates m"
  by (simp add: Add_def Let_def)

lemma Add_keys:
  "keys (Add m ks) = sort (keys m @ concat (map (points (hash m) (replicates m)) ks))"
  by (simp add: Add_def Let_def foldl_add_node_keys)

lemma Add_hashMap: "hashMap (Add m ks) = hashMap (foldl add_node m ks)"
  by (simp add: Add_def Let_def)

lemma Add_hashMap_snoc:
  "hashMap (Add m (ks @ [k])) p =
     (if p \<in> set (points (hash m) (replicates m) k) then Some k else hashMap (Add m ks) p)"
  by (simp only: Add_hashMap foldl_add_node_hashMap_snoc)

lemma Add_hashMap_Nil [simp]: "hashMap (Add m []) = hashMap m"
  by (simp add: Add_hashMap)

lemma Map_ring_eqI:
  fixes a b :: Map_ring
  shows "hash a = hash b \<Longrightarrow> replicates a = replicates b \<Longrightarrow> keys a = keys b \<Longrightarrow>
    hashMap a = hashMap b \<Longrightarrow> a = b"
  by (cases a, cases b) simp

lemma sort_sort_append: "sort (sort xs @ ys) = sort (xs @ (ys :: int list))"
  by (rule properties_for_sort) simp_all

lemma Add_Add_hashMap: "hashMap (Add (Add m xs) ys) = hashMap (Add m (xs @ ys))"
proof (induction ys rule: rev_induct)
  case Nil
  show ?case by (simp only: Add_hashMap_Nil append_Nil2)
next
  case (snoc y ys)
  show ?case
  proof
    fix p
    have "hashMap (Add (Add m xs) (ys @ [y])) p =
        (if p \<in> set (points (hash m) (replicates m) y) then Some y else hashMap (Add (Add m xs) ys) p)"
      by (simp only: Add_hashMap_snoc Add_hash Add_replicates)
    also have "\<dots> = (if p \<in> set (points (hash m) (replicates m) y) then Some y else hashMap (Add m (xs @ ys)) p)"
      by (simp only: snoc)
    also have "\<dots> = hashMap (Add m ((xs @ ys) @ [y])) p"
      by (simp only: Add_hashMap_snoc)
    finally show "hashMap (Add (Add m xs) (ys @ [y])) p = hashMap (Add m (xs @ ys @ [y])) p"
      by (simp only: append_assoc)
  qed
qed

lemma Add_Add: "Add (Add m xs) ys = Add m (xs @ ys)"
proof (rule Map_ring_eqI)
  show "keys (Add (Add m xs) ys) = keys (Add m (xs @ ys))"
    by (simp add: Add_keys sort_sort_append)
qed (simp_all add: Add_Add_hashMap)

section \<open>Facts about \<^verbatim>\<open>Get\<close>\<close>

lemma Get_empty: "keys m = [] \<Longrightarrow> Get m key = []"
  by (simp add: Get_def)

lemma Get_ring_point: "keys m \<noteq> [] \<Longrightarrow> Get m key = map_index (hashMap m) (ring_point m key)"
  by (simp add: Get_def ring_point_def Let_def)

lemma ring_point_in_keys: "keys m \<noteq> [] \<Longrightarrow> ring_point m key \<in> set (keys m)"
  by (simp add: ring_point_def)

lemma New_fields [simp]:
  "replicates (New r fn) = r" "keys (New r fn) = []" "hashMap (New r fn) = Map.empty"
  by (simp_all add: New_def)

lemma Add_sorted: "sorted (keys (Add m ks))"
  by (simp add: Add_keys)

lemma Add_set_keys:
  "set (keys (Add m ks)) = set (keys m) \<union> (\<Union>k\<in>set ks. set (points (hash m) (replicates m) k))"
  by (simp add: Add_keys)

lemma Add_hashMap_Some:
  "hashMap (Add m ks) p = Some n \<Longrightarrow>
     (n \<in> set ks \<and> p \<in> set (points (hash m) (replicates m) n)) \<or> hashMap m p = Some n"
proof (induction ks rule: rev_induct)
  case Nil
  then show ?case by simp
next
  case (snoc k ks)
  then show ?case by (auto simp: Add_hashMap_snoc split: if_splits)
qed

lemma Add_hashMap_bound:
  "k \<in> set ks \<Longrightarrow> p \<in> set (points (hash m) (replicates m) k) \<Longrightarrow>
     \<exists>n\<in>set ks. hashMap (Add m ks) p = Some n \<and> p \<in> set (points (hash m) (replicates m) n)"
proof (induction ks rule: rev_induct)
  case Nil
  then show ?case by simp
next
  case (snoc x ks)
  then show ?case by (auto simp: Add_hashMap_snoc)
qed

lemma Add_hashMap_old:
  "p \<notin> (\<Union>k\<in>set ks. set (points (hash m) (replicates m) k)) \<Longrightarrow> hashMap (Add m ks) p = hashMap m p"
  by (induction ks rule: rev_induct) (auto simp: Add_hashMap_snoc)

text \<open>On a ring built by \<open>New\<close> and \<open>Add\<close>, every point of the list is bound to one of
  the added nodes.\<close>

lemma ring_point_bound:
  assumes "p \<in> set (keys (Add (New r fn) nodes))"
  shows "\<exists>n\<in>set nodes. hashMap (Add (New r fn) nodes) p = Some n"
proof -
  from assms obtain k where "k \<in> set nodes" "p \<in> set (points (hash (New r fn)) r k)"
    by (auto simp: Add_set_keys)
  then show ?thesis using Add_hashMap_bound[of k nodes p "New r fn"] by auto
qed

lemma Get_in_nodes:
  assumes "keys (Add (New r fn) nodes) \<noteq> []"
  shows "Get (Add (New r fn) nodes) key \<in> set nodes"
proof -
  let ?m = "Add (New r fn) nodes"
  obtain n where "n \<in> set nodes" "hashMap ?m (ring_point ?m key) = Some n"
    using ring_point_bound[OF ring_point_in_keys[OF assms]] by blast
  then show ?thesis by (simp add: Get_ring_point[OF assms] map_index_def)
qed

lemma keys_nonempty_iff:
  "keys (Add (New r fn) nodes) \<noteq> [] \<longleftrightarrow> 0 < r \<and> nodes \<noteq> []"
proof -
  have "set (keys (Add (New r fn) nodes)) = {} \<longleftrightarrow> \<not> (0 < r \<and> nodes \<noteq> [])"
    by (auto simp: Add_set_keys points_def)
  then show ?thesis by simp
qed

section \<open>Facts about the checksum\<close>

lemma funpow8: "(f ^^ 8) x = f (f (f (f (f (f (f (f x)))))))"
  by (simp add: eval_nat_numeral)

lemma crc_shift_numeral [simp]:
  "crc_shift (numeral n) = (if bit (numeral n :: 32 word) 0 then drop_bit 1 (numeral n) XOR 0xEDB88320 else drop_bit 1 (numeral n))"
  "crc_shift 0 = 0"
  "crc_shift 1 = 0xEDB88320" 
  by (simp_all add: crc_shift_def)

lemma xor_cancel4: "(a XOR p) XOR (b XOR p) = a XOR (b :: 32 word)"
  by (simp add: ac_simps)

lemma crc_shift_xor: "crc_shift (x XOR y) = crc_shift x XOR crc_shift y"
proof -
  have d: "drop_bit 1 (x XOR y) = drop_bit 1 x XOR drop_bit 1 y"
    by (rule bit_eqI) (simp add: bit_simps)
  have b: "bit (x XOR y) 0 \<longleftrightarrow> bit x 0 \<noteq> bit y 0" by (simp add: bit_simps)
  show ?thesis
    unfolding crc_shift_def d b
    by (cases "bit x 0"; cases "bit y 0") (simp_all add: ac_simps)
qed

lemma crc_shift_pow_xor: "(crc_shift ^^ n) (x XOR y) = (crc_shift ^^ n) x XOR (crc_shift ^^ n) y"
  by (induction n) (simp_all add: crc_shift_xor)

lemma crc_update_xor: "crc_update (s XOR t) b = (crc_shift ^^ 8) s XOR crc_update t b"
  unfolding crc_update_def by (simp only: crc_shift_pow_xor xor.assoc)

lemma foldl_crc_update_affine:
  "foldl crc_update s bs = (crc_shift ^^ (8 * length bs)) s XOR foldl crc_update 0 bs"
proof (induction bs arbitrary: s)
  case Nil
  show ?case by simp
next
  case (Cons b bs)
  have u: "crc_update s b = (crc_shift ^^ 8) s XOR crc_update 0 b"
    using crc_update_xor[of s 0 b] by simp
  have "foldl crc_update s (b # bs) = foldl crc_update (crc_update s b) bs" by simp
  also have "\<dots> = (crc_shift ^^ (8 * length bs)) (crc_update s b) XOR foldl crc_update 0 bs"
    by (rule Cons.IH)
  also have "(crc_shift ^^ (8 * length bs)) (crc_update s b) =
      (crc_shift ^^ (8 * length bs)) ((crc_shift ^^ 8) s) XOR (crc_shift ^^ (8 * length bs)) (crc_update 0 b)"
    by (simp only: u crc_shift_pow_xor)
  also have "(crc_shift ^^ (8 * length bs)) ((crc_shift ^^ 8) s) = (crc_shift ^^ (8 * length bs + 8)) s"
    by (simp only: funpow_add o_apply)
  also have "8 * length bs + 8 = 8 * length (b # bs)"
    by simp
  also have "foldl crc_update 0 (b # bs) = (crc_shift ^^ (8 * length bs)) (crc_update 0 b) XOR foldl crc_update 0 bs"
    using Cons.IH[of "crc_update 0 b"] by simp
  ultimately show ?case by (simp add: ac_simps)
qed

text \<open>Two byte strings of one length with one checksum register from the zero state
  have one checksum behind every common prefix and before every common suffix.\<close>

lemma ChecksumIEEE_collide:
  assumes "length a = length b" "foldl crc_update 0 a = foldl crc_update 0 b"
  shows "ChecksumIEEE (pre @ a @ suf) = ChecksumIEEE (pre @ b @ suf)"
proof -
  have "foldl crc_update s a = foldl crc_update s b" for s
    using foldl_crc_update_affine[of s a] foldl_crc_update_affine[of s b] assms by simp
  then show ?thesis by (simp add: ChecksumIEEE_def)
qed

section \<open>The claims about the ring\<close>

text \<open>
  By \<open>Add_Add\<close>, a ring built from \<^verbatim>\<open>New(r, fn)\<close> by any number of calls of \<^verbatim>\<open>Add\<close> is
  \<^term>\<open>Add (New r fn) nodes\<close> for the list \<open>nodes\<close> of all identifiers added, in order.
\<close>

text \<open>
  C2 (wrap-around), as the code has it. On a ring with at least one point, a key whose
  hash is above every point resolves to the node bound to the smallest point, the one
  at index 0: the lookup reads inside the point list, the point is bound, and the
  result is one of the added identifiers. The result is therefore the empty string
  only when the empty string itself was added as a node identifier.
\<close>

theorem wrap_around:
  assumes "m = Add (New r fn) nodes" and "keys m \<noteq> []"
    and "\<forall>p\<in>set (keys m). p < uint (hash m key)"
  shows "Search (length (keys m)) (\<lambda>i. keys m ! i \<ge> uint (hash m key)) mod length (keys m) = 0 \<and>
         keys m ! 0 = Min (set (keys m)) \<and>
         hashMap m (keys m ! 0) = Some (Get m key) \<and>
         Get m key \<in> set nodes \<and>
         (Get m key = [] \<longrightarrow> [] \<in> set nodes)"
proof -
  let ?h = "uint (hash m key)"
  have srt: "sorted (keys m)" using assms(1) by (simp add: Add_sorted)
  have "\<not> Search (length (keys m)) (\<lambda>i. ?h \<le> keys m ! i) < length (keys m)"
  proof
    assume lt: "Search (length (keys m)) (\<lambda>i. ?h \<le> keys m ! i) < length (keys m)"
    then have "?h \<le> keys m ! Search (length (keys m)) (\<lambda>i. ?h \<le> keys m ! i)"
      using Search_spec(3)[OF srt, where h="?h"] by simp
    moreover have "keys m ! Search (length (keys m)) (\<lambda>i. ?h \<le> keys m ! i) < ?h"
      using assms(3) lt by simp
    ultimately show False by simp
  qed
  then have idx: "Search (length (keys m)) (\<lambda>i. ?h \<le> keys m ! i) = length (keys m)"
    using Search_spec(1)[OF srt, where h="?h"] by simp
  have min0: "keys m ! 0 = Min (set (keys m))"
  proof (rule Min_eqI[symmetric])
    show "keys m ! 0 \<in> set (keys m)" using assms(2) by simp
    show "keys m ! 0 \<le> y" if "y \<in> set (keys m)" for y
      using that srt by (auto simp: in_set_conv_nth sorted_nth_mono)
  qed simp
  have rp: "ring_point m key = keys m ! 0"
    unfolding ring_point_def using idx by simp
  have g: "Get m key = map_index (hashMap m) (keys m ! 0)"
    using Get_ring_point[OF assms(2)] rp by simp
  have "keys m ! 0 \<in> set (keys m)" using assms(2) by simp
  then obtain n where n: "n \<in> set nodes" "hashMap m (keys m ! 0) = Some n"
    using ring_point_bound[of "keys m ! 0" r fn nodes] assms(1) by auto
  then have "Get m key = n" using g by (simp add: map_index_def)
  with min0 n idx show ?thesis by auto
qed

theorem wrap_around_witness:
  "keys (Add (New 2 (Some byteSum)) [''A'', ''B'']) = [113, 114, 114, 115] \<and>
   uint (hash (Add (New 2 (Some byteSum)) [''A'', ''B'']) ''zz'') = 244 \<and>
   Get (Add (New 2 (Some byteSum)) [''A'', ''B'']) ''zz'' = ''A'' \<and>
   hashMap (Add (New 2 (Some byteSum)) [''A'', ''B'']) 113 = Some ''A''"
proof -
  let ?m = "Add (New 2 (Some byteSum)) [''A'', ''B'']"
  have k: "keys ?m = [113, 114, 114, 115]" by code_simp
  have h: "uint (hash ?m ''zz'') = 244" by code_simp
  have "\<forall>p\<in>set (keys ?m). p < uint (hash ?m ''zz'')" unfolding k h by simp
  from wrap_around[OF refl _ this] k
  have "hashMap ?m 113 = Some (Get ?m ''zz'')" and "Get ?m ''zz'' \<in> set [''A'', ''B'']" by auto
  moreover have "hashMap ?m 113 = Some ''A''" by code_simp
  ultimately show ?thesis using k h by simp
qed

theorem wrap_around_sentinel_counterexample:
  "keys (Add (New 1 (Some lenHash)) ['''']) = [1] \<and>
   uint (hash (Add (New 1 (Some lenHash)) ['''']) ''ab'') = 2 \<and>
   Get (Add (New 1 (Some lenHash)) ['''']) ''ab'' = []"
  by code_simp

text \<open>
  C3 (ring coverage), as the code has it. With a replica count of at least one: the
  result is the empty string when no node has been added; once a node has been added the
  result is always one of the added identifiers; so, when the empty string is not among
  the added identifiers, the result is the empty string exactly when no node has been
  added.
\<close>

theorem ring_coverage:
  assumes "0 < r"
  shows "(nodes = [] \<longrightarrow> Get (Add (New r fn) nodes) key = []) \<and>
         (nodes \<noteq> [] \<longrightarrow> Get (Add (New r fn) nodes) key \<in> set nodes) \<and>
         ([] \<notin> set nodes \<longrightarrow> (Get (Add (New r fn) nodes) key = [] \<longleftrightarrow> nodes = []))"
proof -
  have a: "Get (Add (New r fn) nodes) key = []" if "nodes = []"
    using that keys_nonempty_iff[of r fn nodes] by (simp add: Get_empty)
  have b: "Get (Add (New r fn) nodes) key \<in> set nodes" if "nodes \<noteq> []"
    using that assms keys_nonempty_iff[of r fn nodes] by (simp add: Get_in_nodes)
  show ?thesis using a b by metis
qed

theorem ring_coverage_witness:
  "Get (Add (New 1 None) [''A'']) ''x'' = ''A'' \<and> Get (Add (New 50 None) []) ''x'' = []"
  using ring_coverage[of 1 "[''A'']" None "''x''"] ring_coverage[of 50 "[]" None "''x''"]
  by simp

theorem ring_coverage_counterexample:
  "Get (Add (New 1 (Some lenHash)) ['''']) ''k'' = [] \<and>
   Get (Add (New 0 (Some lenHash)) [''A'']) ''k'' = []"
  by code_simp

section \<open>Removing a node\<close>

lemma Add_hashMap_removeAll:
  "hashMap (Add m S) p = Some q \<Longrightarrow> q \<noteq> n \<Longrightarrow> hashMap m p = None \<Longrightarrow>
     hashMap (Add m (removeAll n S)) p = Some q"
proof (induction S rule: rev_induct)
  case Nil
  then show ?case by simp
next
  case (snoc x S)
  show ?case
  proof (cases "p \<in> set (points (hash m) (replicates m) x)")
    case True
    then have "q = x" using snoc.prems(1) by (simp add: Add_hashMap_snoc)
    then have "removeAll n (S @ [x]) = removeAll n S @ [x]" using snoc.prems(2) by simp
    then show ?thesis using True \<open>q = x\<close> by (simp add: Add_hashMap_snoc)
  next
    case False
    then have old: "hashMap (Add m S) p = Some q" using snoc.prems(1) by (simp add: Add_hashMap_snoc)
    have ih: "hashMap (Add m (removeAll n S)) p = Some q"
      by (rule snoc.IH[OF old snoc.prems(2,3)])
    show ?thesis
    proof (cases "x = n")
      case True
      then show ?thesis using ih by simp
    next
      case False
      then have "removeAll n (S @ [x]) = removeAll n S @ [x]" by simp
      then show ?thesis using ih \<open>p \<notin> set (points (hash m) (replicates m) x)\<close>
        by (simp add: Add_hashMap_snoc)
    qed
  qed
qed

lemma keys_removeAll_subset:
  "set (keys (Add (New r fn) (removeAll n S))) \<subseteq> set (keys (Add (New r fn) S))"
  by (auto simp: Add_set_keys)

lemma New_hash_Add [simp]: "hash (Add (New r fn) S) = hash (New r fn)"
  by simp

text \<open>
  C4 (minimal disruption). For a ring built from the list \<open>S\<close> of nodes, a node \<open>n\<close> and
  a key \<open>k\<close>: when the owner of \<open>k\<close> is not \<open>n\<close>, the ring rebuilt from \<open>S\<close> without \<open>n\<close>,
  with the same replica count and hash function, gives \<open>k\<close> the same owner. Hence a key
  whose owner changes was owned by \<open>n\<close>: the point its lookup landed on was bound to \<open>n\<close>
  and is one of the points placed for \<open>n\<close>.
\<close>

theorem minimal_disruption:
  "(Get (Add (New r fn) S) k \<noteq> n \<longrightarrow>
      Get (Add (New r fn) (removeAll n S)) k = Get (Add (New r fn) S) k) \<and>
   (Get (Add (New r fn) (removeAll n S)) k \<noteq> Get (Add (New r fn) S) k \<longrightarrow>
      Get (Add (New r fn) S) k = n \<and>
      hashMap (Add (New r fn) S) (ring_point (Add (New r fn) S) k) = Some n \<and>
      ring_point (Add (New r fn) S) k \<in> set (points (hash (New r fn)) r n))"
proof -
  let ?m = "Add (New r fn) S" and ?m' = "Add (New r fn) (removeAll n S)"
  have same: "Get ?m' k = Get ?m k" if neq: "Get ?m k \<noteq> n"
  proof (cases "keys ?m = []")
    case True
    then have "keys ?m' = []" using keys_removeAll_subset[of r fn n S] by simp
    then show ?thesis using True by (simp add: Get_empty)
  next
    case False
    let ?p = "ring_point ?m k"
    obtain q where q: "q \<in> set S" "hashMap ?m ?p = Some q"
      using ring_point_bound[OF ring_point_in_keys[OF False]] by blast
    then have gq: "Get ?m k = q" by (simp add: Get_ring_point[OF False] map_index_def)
    then have qn: "q \<noteq> n" using neq by simp
    have hm': "hashMap ?m' ?p = Some q"
      by (rule Add_hashMap_removeAll[OF q(2) qn]) simp
    then have "?p \<in> set (points (hash (New r fn)) (replicates (New r fn)) q) \<and> q \<in> set (removeAll n S)"
      using Add_hashMap_Some[of "New r fn" "removeAll n S" ?p q] by simp
    then have pin: "?p \<in> set (keys ?m')" by (auto simp: Add_set_keys)
    then have ne': "keys ?m' \<noteq> []" by auto
    have s1: "sorted (keys ?m)" and s2: "sorted (keys ?m')" by (rule Add_sorted)+
    have sub: "set (keys ?m') \<subseteq> set (keys ?m)" by (rule keys_removeAll_subset)
    have "ring_point ?m' k = ?p"
      unfolding ring_point_def
      using search_point_subset[OF s1 s2 sub, where h="uint (hash (New r fn) k)"]
        pin[unfolded ring_point_def]
      by simp
    then have "Get ?m' k = q" using hm' by (simp add: Get_ring_point[OF ne'] map_index_def)
    then show ?thesis using gq by simp
  qed
  have changed: "Get ?m k = n \<and> hashMap ?m (ring_point ?m k) = Some n \<and>
      ring_point ?m k \<in> set (points (hash (New r fn)) r n)"
    if diff: "Get ?m' k \<noteq> Get ?m k"
  proof -
    have gn: "Get ?m k = n" using same diff by blast
    have ne: "keys ?m \<noteq> []"
    proof
      assume e: "keys ?m = []"
      then have "keys ?m' = []" using keys_removeAll_subset[of r fn n S] by simp
      with e diff show False by (simp add: Get_empty)
    qed
    obtain q where q: "q \<in> set S" "hashMap ?m (ring_point ?m k) = Some q"
      using ring_point_bound[OF ring_point_in_keys[OF ne]] by blast
    then have "q = n" using gn by (simp add: Get_ring_point[OF ne] map_index_def)
    then show ?thesis using gn q Add_hashMap_Some[of "New r fn" S "ring_point ?m k" n] by simp
  qed
  show ?thesis using same changed by blast
qed

theorem minimal_disruption_witness:
  "Get (Add (New 2 (Some byteSum)) [''A'', ''B'']) ''q'' = ''A'' \<and>
   Get (Add (New 2 (Some byteSum)) (removeAll ''B'' [''A'', ''B''])) ''q'' = ''A'' \<and>
   Get (Add (New 2 (Some byteSum)) [''A'', ''B'']) ''s'' = ''B'' \<and>
   Get (Add (New 2 (Some byteSum)) (removeAll ''B'' [''A'', ''B''])) ''s'' = ''A'' \<and>
   ring_point (Add (New 2 (Some byteSum)) [''A'', ''B'']) ''s'' = 115 \<and>
   points byteSum 2 ''B'' = [114, 115]"
proof -
  let ?m = "Add (New 2 (Some byteSum)) [''A'', ''B'']"
  let ?m' = "Add (New 2 (Some byteSum)) (removeAll ''B'' [''A'', ''B''])"
  have a: "Get ?m ''q'' = ''A''" by code_simp
  have b: "Get ?m' ''s'' = ''A''" by code_simp
  have c: "Get ?m ''s'' = ''B''" by code_simp
  have d: "ring_point ?m ''s'' = 115" by code_simp
  have e: "points byteSum 2 ''B'' = [114, 115]" by code_simp
  have "Get ?m' ''q'' = Get ?m ''q''"
    using minimal_disruption[of 2 "Some byteSum" "[''A'', ''B'']" "''q''" "''B''"] a by simp
  moreover have "ring_point ?m ''s'' \<in> set (points (hash (New 2 (Some byteSum))) 2 ''B'')"
    using minimal_disruption[of 2 "Some byteSum" "[''A'', ''B'']" "''s''" "''B''"] b c by simp
  ultimately show ?thesis using a b c d e by simp
qed

section \<open>Repeated and colliding registrations\<close>

lemma Add_single_keys:
  "keys (Add m [node]) = sort (keys m @ points (hash m) (replicates m) node)"
  by (simp add: Add_keys)

lemma Add_single_hashMap:
  "hashMap (Add m [node]) p =
     (if p \<in> set (points (hash m) (replicates m) node) then Some node else hashMap m p)"
  using Add_hashMap_snoc[of m "[]" node p] by simp

lemma length_points [simp]: "length (points fn r node) = nat r"
  by (simp add: points_def)

lemma length_filter_sort:
  "length (filter P (sort (xs :: int list))) = length (filter P xs)"
proof -
  have "mset (filter P (sort xs)) = mset (filter P xs)" by simp
  then show ?thesis by (metis size_mset)
qed

lemma weight_Add_single:
  "weight (Add m [node]) node =
     length (filter (\<lambda>k. k \<in> set (points (hash m) (replicates m) node) \<or> hashMap m k = Some node) (keys m))
       + nat (replicates m)"
proof -
  let ?pts = "points (hash m) (replicates m) node"
  let ?P = "\<lambda>k. hashMap (Add m [node]) k = Some node"
  have P: "?P k \<longleftrightarrow> k \<in> set ?pts \<or> hashMap m k = Some node" for k
    by (simp add: Add_single_hashMap)
  have "filter ?P ?pts = ?pts" by (simp add: filter_id_conv P)
  then have "length (filter ?P ?pts) = nat (replicates m)" by simp
  then show ?thesis
    unfolding weight_def Add_single_keys length_filter_sort filter_append length_append
    by (simp add: P)
qed

lemma weight_Add_single_ge: "weight m node + nat (replicates m) \<le> weight (Add m [node]) node"
proof -
  have "length (filter (\<lambda>k. hashMap m k = Some node) (keys m)) \<le>
      length (filter (\<lambda>k. k \<in> set (points (hash m) (replicates m) node) \<or> hashMap m k = Some node) (keys m))"
    (is "length (filter ?P _) \<le> length (filter ?Q _)")
  proof -
    have "filter ?P (keys m) = filter ?P (filter ?Q (keys m))"
      by (simp add: conj_commute cong: conj_cong) 
    then show ?thesis by (metis length_filter_le)
  qed
  then have "weight m node \<le>
      length (filter (\<lambda>k. k \<in> set (points (hash m) (replicates m) node) \<or> hashMap m k = Some node) (keys m))"
    by (simp add: weight_def)
  then show ?thesis by (simp add: weight_Add_single)
qed

text \<open>
  C8. \<^verbatim>\<open>Add\<close> is not idempotent. Adding a node to any ring, in particular to one that
  already holds it, appends the node's \<^verbatim>\<open>replicates\<close> points to the point list again:
  the list grows by that many entries, the old entries stay, and the number of entries
  bound to the node grows by at least that many.
\<close>

theorem add_not_idempotent:
  "mset (keys (Add (Add m [node]) [node])) =
     mset (keys (Add m [node])) + mset (points (hash m) (replicates m) node) \<and>
   length (keys (Add (Add m [node]) [node])) = length (keys (Add m [node])) + nat (replicates m) \<and>
   weight (Add m [node]) node + nat (replicates m) \<le> weight (Add (Add m [node]) [node]) node \<and>
   nat (replicates m) \<le> weight (Add m [node]) node \<and>
   (0 < replicates m \<longrightarrow> Add (Add m [node]) [node] \<noteq> Add m [node])"
proof -
  let ?m1 = "Add m [node]"
  have a: "mset (keys (Add ?m1 [node])) = mset (keys ?m1) + mset (points (hash m) (replicates m) node)"
    by (simp add: Add_single_keys)
  have b: "length (keys (Add ?m1 [node])) = length (keys ?m1) + nat (replicates m)"
    by (simp add: Add_single_keys)
  have c: "weight ?m1 node + nat (replicates m) \<le> weight (Add ?m1 [node]) node"
    using weight_Add_single_ge[of ?m1 node] by simp
  have d: "nat (replicates m) \<le> weight ?m1 node"
    using weight_Add_single_ge[of m node] by simp
  have e: "Add ?m1 [node] \<noteq> ?m1" if "0 < replicates m"
  proof
    assume "Add ?m1 [node] = ?m1"
    then have "length (keys (Add ?m1 [node])) = length (keys ?m1)" by simp
    with b that show False by simp
  qed
  show ?thesis using a b c d e by blast
qed

theorem add_not_idempotent_witness:
  "keys (Add (New 2 (Some byteSum)) [''A'']) = [113, 114] \<and>
   keys (Add (Add (New 2 (Some byteSum)) [''A'']) [''A'']) = [113, 113, 114, 114] \<and>
   weight (Add (New 2 (Some byteSum)) [''A'']) ''A'' = 2 \<and>
   weight (Add (Add (New 2 (Some byteSum)) [''A'']) [''A'']) ''A'' = 4 \<and>
   Add (Add (New 2 (Some byteSum)) [''A'']) [''A''] \<noteq> Add (New 2 (Some byteSum)) [''A'']"
proof -
  have "Add (Add (New 2 (Some byteSum)) [''A'']) [''A''] \<noteq> Add (New 2 (Some byteSum)) [''A'']"
    using add_not_idempotent[of "New 2 (Some byteSum)" "''A''"] by simp
  moreover have "keys (Add (New 2 (Some byteSum)) [''A'']) = [113, 114]" by code_simp
  moreover have "keys (Add (Add (New 2 (Some byteSum)) [''A'']) [''A'']) = [113, 113, 114, 114]"
    by code_simp
  moreover have "weight (Add (New 2 (Some byteSum)) [''A'']) ''A'' = 2" by code_simp
  moreover have "weight (Add (Add (New 2 (Some byteSum)) [''A'']) [''A'']) ''A'' = 4" by code_simp
  ultimately show ?thesis by blast
qed

section \<open>Colliding points\<close>

lemma point_in_points:
  "i < nat r \<Longrightarrow> uint (fn (Itoa i @ node)) \<in> set (points fn r node)"
  by (auto simp: points_def intro!: image_eqI[where x=i])

lemma Add_two_hashMap:
  "hashMap (Add (Add m [a]) [b]) p =
     (if p \<in> set (points (hash m) (replicates m) b) then Some b
      else if p \<in> set (points (hash m) (replicates m) a) then Some a
      else hashMap m p)"
  by (simp add: Add_single_hashMap)

lemma Add_two_keys:
  "mset (keys (Add (Add m [a]) [b])) =
     mset (keys m) + mset (points (hash m) (replicates m) a) + mset (points (hash m) (replicates m) b)"
  by (simp add: Add_single_keys)

text \<open>A node whose points are all points of the node added after it is bound to no
  point: no lookup returns it.\<close>

lemma shadowed_unreachable:
  assumes "set (points (hash m) (replicates m) a) \<subseteq> set (points (hash m) (replicates m) b)"
    and "a \<noteq> b" and "a \<notin> ran (hashMap m)" and "a \<noteq> []"
  shows "Get (Add (Add m [a]) [b]) key \<noteq> a"
proof
  let ?m' = "Add (Add m [a]) [b]"
  assume g: "Get ?m' key = a"
  then have ne: "keys ?m' \<noteq> []" using assms(4) by (auto simp: Get_empty)
  from g have "map_index (hashMap ?m') (ring_point ?m' key) = a"
    by (simp add: Get_ring_point[OF ne])
  then have "hashMap ?m' (ring_point ?m' key) = Some a"
    using assms(4) by (auto simp: map_index_def split: option.splits)
  then show False
    using assms(1,2,3) by (auto simp: Add_two_hashMap ran_def split: if_splits)
qed

lemma Add_append_hashMap_new:
  assumes "q \<in> (\<Union>n\<in>set ys. set (points (hash m) (replicates m) n))"
  shows "\<exists>n\<in>set ys. hashMap (Add m (xs @ ys)) q = Some n"
proof -
  from assms obtain k where k: "k \<in> set ys" "q \<in> set (points (hash m) (replicates m) k)" by blast
  have "\<exists>n\<in>set ys. hashMap (Add (Add m xs) ys) q = Some n \<and>
      q \<in> set (points (hash (Add m xs)) (replicates (Add m xs)) n)"
    by (rule Add_hashMap_bound) (use k in simp_all)
  then show ?thesis by (auto simp: Add_Add)
qed

lemma Add_append_hashMap_old:
  assumes "q \<notin> (\<Union>n\<in>set ys. set (points (hash m) (replicates m) n))"
  shows "hashMap (Add m (xs @ ys)) q = hashMap (Add m xs) q"
proof -
  have "hashMap (Add (Add m xs) ys) q = hashMap (Add m xs) q"
    by (rule Add_hashMap_old) (use assms in simp)
  then show ?thesis by (simp add: Add_Add)
qed

text \<open>A node whose points are all points of nodes added after its last registration
  is bound to no point: no lookup returns it.\<close>

lemma overwritten_unreachable:
  assumes "set (points (hash m) (replicates m) a) \<subseteq>
             (\<Union>n\<in>set later. set (points (hash m) (replicates m) n))"
    and "a \<notin> set later" and "a \<notin> ran (hashMap m)" and "a \<noteq> []"
  shows "Get (Add m (earlier @ later)) key \<noteq> a"
proof
  let ?m' = "Add m (earlier @ later)"
  assume g: "Get ?m' key = a"
  then have ne: "keys ?m' \<noteq> []" using assms(4) by (auto simp: Get_empty)
  from g have "map_index (hashMap ?m') (ring_point ?m' key) = a"
    by (simp add: Get_ring_point[OF ne])
  then have b: "hashMap ?m' (ring_point ?m' key) = Some a"
    using assms(4) by (auto simp: map_index_def split: option.splits)
  then have "ring_point ?m' key \<in> set (points (hash m) (replicates m) a)"
    using Add_hashMap_Some[OF b] assms(3) by (auto simp: ran_def)
  then have "ring_point ?m' key \<in> (\<Union>n\<in>set later. set (points (hash m) (replicates m) n))"
    using assms(1) by blast
  then obtain n where "n \<in> set later" "hashMap ?m' (ring_point ?m' key) = Some n"
    using Add_append_hashMap_new[where q="ring_point ?m' key" and ys=later and m=m and xs=earlier]
    by blast
  with b assms(2) show False by simp
qed

text \<open>
  C10, as the code has it. Let replica \<open>i\<close> of node \<open>A\<close> and replica \<open>j\<close> of a node \<open>B\<close> added
  after \<open>A\<close> hash to one point, in a ring built from the nodes \<open>pre\<close>, \<open>A\<close>, \<open>mid\<close>, \<open>B\<close>, \<open>post\<close>
  in this order (by \<open>Add_Add\<close> it does not matter how they are spread over calls of
  \<^verbatim>\<open>Add\<close>). The last node to write a point owns it: when no node added after \<open>B\<close> hashes
  to the point, the point is bound to \<open>B\<close>, it stands at least twice in the sorted point
  list, and every lookup that lands on it returns \<open>B\<close> and not \<open>A\<close>. When every point of \<open>A\<close>
  is also a point of a node added after the last registration of \<open>A\<close> (and \<open>A\<close> was not
  bound before), no lookup returns \<open>A\<close> at all, though \<open>A\<close> was added and never removed.
\<close>

theorem collision_last_writer_wins:
  assumes "A \<noteq> B" and "i < nat (replicates m)" and "j < nat (replicates m)"
    and "hash m (Itoa i @ A) = hash m (Itoa j @ B)"
    and "\<forall>n\<in>set post. uint (hash m (Itoa i @ A)) \<notin> set (points (hash m) (replicates m) n)"
  shows "hashMap (Add m (pre @ [A] @ mid @ [B] @ post)) (uint (hash m (Itoa i @ A))) = Some B \<and>
         sorted (keys (Add m (pre @ [A] @ mid @ [B] @ post))) \<and>
         2 \<le> count_list (keys (Add m (pre @ [A] @ mid @ [B] @ post))) (uint (hash m (Itoa i @ A))) \<and>
         (\<forall>key. ring_point (Add m (pre @ [A] @ mid @ [B] @ post)) key = uint (hash m (Itoa i @ A)) \<longrightarrow>
                Get (Add m (pre @ [A] @ mid @ [B] @ post)) key = B \<and>
                Get (Add m (pre @ [A] @ mid @ [B] @ post)) key \<noteq> A) \<and>
         (set (points (hash m) (replicates m) A) \<subseteq>
            (\<Union>n\<in>set (mid @ [B] @ post). set (points (hash m) (replicates m) n)) \<and>
          A \<notin> set mid \<and> A \<notin> set post \<and> A \<notin> ran (hashMap m) \<and> A \<noteq> [] \<longrightarrow>
            (\<forall>key. Get (Add m (pre @ [A] @ mid @ [B] @ post)) key \<noteq> A))"
proof -
  let ?nodes = "pre @ [A] @ mid @ [B] @ post"
  let ?m' = "Add m ?nodes" and ?p = "uint (hash m (Itoa i @ A))"
  let ?pts = "points (hash m) (replicates m)"
  have pa: "?p \<in> set (?pts A)" by (rule point_in_points[OF assms(2)])
  have pb: "?p \<in> set (?pts B)" unfolding assms(4) by (rule point_in_points[OF assms(3)])
  have "?p \<notin> (\<Union>n\<in>set post. set (?pts n))" using assms(5) by blast
  then have "hashMap (Add m ((pre @ [A] @ mid @ [B]) @ post)) ?p = hashMap (Add m (pre @ [A] @ mid @ [B])) ?p"
    by (rule Add_append_hashMap_old)
  moreover have "hashMap (Add m ((pre @ [A] @ mid) @ [B])) ?p = Some B"
    using pb by (simp only: Add_hashMap_snoc if_True)
  ultimately have bound: "hashMap ?m' ?p = Some B" by simp
  have srt: "sorted (keys ?m')" by (rule Add_sorted)
  have "count_list (keys ?m') ?p = count (mset (keys ?m')) ?p" by (simp add: count_mset)
  also have "\<dots> = count_list (keys m) ?p + count_list (concat (map ?pts pre)) ?p + count_list (?pts A) ?p
      + count_list (concat (map ?pts mid)) ?p + count_list (?pts B) ?p + count_list (concat (map ?pts post)) ?p"
    by (simp add: Add_keys count_mset)
  finally have cnt: "count_list (?pts A) ?p + count_list (?pts B) ?p \<le> count_list (keys ?m') ?p"
    by simp
  have "0 < count_list (?pts A) ?p" "0 < count_list (?pts B) ?p"
    using pa pb count_list_0_iff[of "?pts A" ?p] count_list_0_iff[of "?pts B" ?p] by auto
  then have twice: "2 \<le> count_list (keys ?m') ?p" using cnt by simp
  have ne: "keys ?m' \<noteq> []" using twice by auto
  have lands: "Get ?m' key = B \<and> Get ?m' key \<noteq> A" if "ring_point ?m' key = ?p" for key
  proof -
    have "Get ?m' key = map_index (hashMap ?m') (ring_point ?m' key)"
      by (rule Get_ring_point[OF ne])
    also have "\<dots> = B" using bound that by (simp add: map_index_def)
    finally show ?thesis using assms(1) by simp
  qed
  have gone: "Get ?m' key \<noteq> A"
    if h: "set (?pts A) \<subseteq> (\<Union>n\<in>set (mid @ [B] @ post). set (?pts n)) \<and>
      A \<notin> set mid \<and> A \<notin> set post \<and> A \<notin> ran (hashMap m) \<and> A \<noteq> []" for key
  proof -
    have "A \<notin> set (mid @ [B] @ post)" using h assms(1) by simp
    then have "Get (Add m ((pre @ [A]) @ (mid @ [B] @ post))) key \<noteq> A"
      using h by (intro overwritten_unreachable) blast+
    then show ?thesis by simp
  qed
  show ?thesis using bound srt twice lands gone by blast
qed

theorem collision_last_writer_wins_witness:
  "keys (Add (New 2 (Some byteSum)) [''A'', ''B'', ''C'']) = [113, 114, 114, 115, 115, 116] \<and>
   points byteSum 2 ''C'' = [115, 116] \<and>
   hashMap (Add (New 2 (Some byteSum)) [''A'', ''B'', ''C'']) 114 = Some ''B'' \<and>
   Get (Add (New 2 (Some byteSum)) [''A'', ''B'', ''C'']) ''r'' = ''B'' \<and>
   points lenHash 2 ''A'' = [2, 2] \<and> points lenHash 2 ''B'' = [2, 2] \<and>
   (\<forall>key. Get (Add (New 2 (Some lenHash)) [''A'', ''B'']) key \<noteq> ''A'')"
proof -
  let ?m = "New 2 (Some byteSum)"
  have h: "hash ?m (Itoa 1 @ ''A'') = hash ?m (Itoa 0 @ ''B'')" by code_simp
  have p: "uint (hash ?m (Itoa 1 @ ''A'')) = 114" by code_simp
  have pc: "points byteSum 2 ''C'' = [115, 116]" by code_simp
  have hb: "hash ?m = byteSum" by (simp add: New_def)
  have post: "\<forall>n\<in>set [''C'']. uint (hash ?m (Itoa 1 @ ''A'')) \<notin> set (points (hash ?m) (replicates ?m) n)"
    unfolding p by (simp add: hb pc)
  have rp: "ring_point (Add ?m [''A'', ''B'', ''C'']) ''r'' = 114" by code_simp
  have k: "keys (Add ?m [''A'', ''B'', ''C'']) = [113, 114, 114, 115, 115, 116]" by code_simp
  have one: "hashMap (Add ?m [''A'', ''B'', ''C'']) 114 = Some ''B'' \<and>
      Get (Add ?m [''A'', ''B'', ''C'']) ''r'' = ''B''"
    using collision_last_writer_wins[where A="''A''" and B="''B''" and i=1 and j=0 and m="?m"
        and pre="[]" and mid="[]" and post="[''C'']", OF _ _ _ h post] p rp
    by simp
  let ?l = "New 2 (Some lenHash)"
  have hl: "hash ?l (Itoa 0 @ ''A'') = hash ?l (Itoa 0 @ ''B'')" by code_simp
  have pa: "points lenHash 2 ''A'' = [2, 2]" and pb: "points lenHash 2 ''B'' = [2, 2]"
    by code_simp+
  have hh: "hash ?l = lenHash" by (simp add: New_def)
  have two: "\<forall>key. Get (Add ?l [''A'', ''B'']) key \<noteq> ''A''"
    using collision_last_writer_wins[where A="''A''" and B="''B''" and i=0 and j=0 and m="?l"
        and pre="[]" and mid="[]" and post="[]", OF _ _ _ hl] pa pb hh
    by simp
  show ?thesis using one two k pa pb pc by simp
qed

theorem third_writer_wins_counterexample:
  "hash (New 2 (Some lenHash)) (Itoa 0 @ ''A'') = hash (New 2 (Some lenHash)) (Itoa 0 @ ''B'') \<and>
   uint (hash (New 2 (Some lenHash)) (Itoa 0 @ ''A'')) = 2 \<and>
   keys (Add (New 2 (Some lenHash)) [''A'', ''B'', ''C'']) = [2, 2, 2, 2, 2, 2] \<and>
   hashMap (Add (New 2 (Some lenHash)) [''A'', ''B'', ''C'']) 2 = Some ''C'' \<and>
   ring_point (Add (New 2 (Some lenHash)) [''A'', ''B'', ''C'']) ''k'' = 2 \<and>
   Get (Add (New 2 (Some lenHash)) [''A'', ''B'', ''C'']) ''k'' = ''C''"
  by code_simp

section \<open>The coordinator\<close>

lemma foldl_getters:
  "foldl (\<lambda>g peer. g(peer \<mapsto> \<lparr>baseURL = peer @ bp\<rparr>)) g0 ps n =
     (if n \<in> set ps then Some \<lparr>baseURL = n @ bp\<rparr> else g0 n)"
  by (induction ps rule: rev_induct) simp_all

lemma Set_peers_fields:
  "self (Set_peers p ps) = self p"
  "basePath (Set_peers p ps) = basePath p"
  "peers (Set_peers p ps) = Some (Add (New defaultReplicate None) ps)"
  "httpGetters (Set_peers p ps) n = (if n \<in> set ps then Some \<lparr>baseURL = n @ basePath p\<rparr> else None)"
  by (simp_all add: Set_peers_def foldl_getters)

lemma dom_Set_peers: "dom (httpGetters (Set_peers p ps)) = set ps"
  by (auto simp: Set_peers_fields dom_def)

lemma ring_nodes_subset: "ring_nodes (Add (New r fn) nodes) \<subseteq> set nodes"
  by (auto simp: ring_nodes_def Get_in_nodes)

lemma ring_nodes_Get: "n \<in> ring_nodes m \<Longrightarrow> \<exists>key. Get m key = n"
  by (auto simp: ring_nodes_def split: if_splits)

text \<open>
  C1. On a coordinator whose ring has been set: when the ring resolves the key to the
  coordinator's own identifier, or to the empty string (as it does when no node is
  registered), \<^verbatim>\<open>PickPeer\<close> returns \<^verbatim>\<open>nil\<close> and false; when it resolves the key to a
  non-empty identifier other than \<open>self\<close>, \<^verbatim>\<open>PickPeer\<close> returns the entry of that node in
  the client map and true.
\<close>

theorem pickPeer_self_exclusion:
  assumes "peers p = Some m"
  shows "(Get m key = self p \<or> Get m key = [] \<longrightarrow> PickPeer p key = Inr (None, False)) \<and>
         (keys m = [] \<longrightarrow> PickPeer p key = Inr (None, False)) \<and>
         (Get m key \<noteq> [] \<and> Get m key \<noteq> self p \<longrightarrow>
            PickPeer p key = Inr (httpGetters p (Get m key), True))"
  using assms by (auto simp: PickPeer_def Let_def Get_empty)

theorem pickPeer_self_exclusion_witness:
  "PickPeer (Set_peers (NewHttpPool ''A'') [''A'']) ''k'' = Inr (None, False) \<and>
   PickPeer (Set_peers (NewHttpPool ''A'') []) ''k'' = Inr (None, False) \<and>
   PickPeer (Set_peers (NewHttpPool ''A'') [''B'']) ''k'' = Inr (Some \<lparr>baseURL = ''B/_cache/''\<rparr>, True)"
proof -
  have gA: "Get (Add (New defaultReplicate None) [''A'']) ''k'' = ''A''"
    using Get_in_nodes[of defaultReplicate None "[''A'']" "''k''"]
      keys_nonempty_iff[of defaultReplicate None "[''A'']"]
    by (simp add: defaultReplicate_def)
  have gB: "Get (Add (New defaultReplicate None) [''B'']) ''k'' = ''B''"
    using Get_in_nodes[of defaultReplicate None "[''B'']" "''k''"]
      keys_nonempty_iff[of defaultReplicate None "[''B'']"]
    by (simp add: defaultReplicate_def)
  have k0: "keys (Add (New defaultReplicate None) []) = []"
    using keys_nonempty_iff[of defaultReplicate None "[]"] by simp
  have s: "self (Set_peers (NewHttpPool ''A'') ps) = ''A''" for ps
    by (simp add: Set_peers_fields NewHttpPool_def)
  have a: "PickPeer (Set_peers (NewHttpPool ''A'') [''A'']) ''k'' = Inr (None, False)"
    using pickPeer_self_exclusion[where p="Set_peers (NewHttpPool ''A'') [''A'']" and key="''k''", OF Set_peers_fields(3)] gA s
    by simp
  have b: "PickPeer (Set_peers (NewHttpPool ''A'') []) ''k'' = Inr (None, False)"
    using pickPeer_self_exclusion[where p="Set_peers (NewHttpPool ''A'') []" and key="''k''", OF Set_peers_fields(3)] k0
    by simp
  have c: "PickPeer (Set_peers (NewHttpPool ''A'') [''B'']) ''k'' =
      Inr (Some \<lparr>baseURL = ''B/_cache/''\<rparr>, True)"
    using pickPeer_self_exclusion[where p="Set_peers (NewHttpPool ''A'') [''B'']" and key="''k''", OF Set_peers_fields(3)] gB s
    by (simp add: Set_peers_fields NewHttpPool_def defaultBasePath_def)
  show ?thesis using a b c by simp
qed

text \<open>
  C9, as the code has it. After \<^verbatim>\<open>Set(nodes...)\<close> the coordinator holds the ring built from
  \<open>nodes\<close> and a client map whose keys are exactly \<open>nodes\<close>, each client with the node's
  address followed by the path prefix. Every identifier the ring can return is a key of
  the client map. \<^verbatim>\<open>PickPeer\<close> does not panic, and whenever it returns true the client it
  returns is the one stored for the owning node, which is one of \<open>nodes\<close>.
\<close>

theorem setPeers_consistent:
  "peers (Set_peers p nodes) = Some (Add (New defaultReplicate None) nodes) \<and>
   dom (httpGetters (Set_peers p nodes)) = set nodes \<and>
   (\<forall>n\<in>set nodes. httpGetters (Set_peers p nodes) n = Some \<lparr>baseURL = n @ basePath p\<rparr>) \<and>
   ring_nodes (Add (New defaultReplicate None) nodes) \<subseteq> dom (httpGetters (Set_peers p nodes)) \<and>
   (\<exists>res. PickPeer (Set_peers p nodes) key = Inr res) \<and>
   (\<forall>g. PickPeer (Set_peers p nodes) key = Inr (g, True) \<longrightarrow>
        Get (Add (New defaultReplicate None) nodes) key \<in> set nodes \<and>
        g = Some \<lparr>baseURL = Get (Add (New defaultReplicate None) nodes) key @ basePath p\<rparr>)"
proof -
  let ?m = "Add (New defaultReplicate None) nodes" and ?p = "Set_peers p nodes"
  have a: "peers ?p = Some ?m" by (rule Set_peers_fields)
  have b: "dom (httpGetters ?p) = set nodes" by (rule dom_Set_peers)
  have c: "\<forall>n\<in>set nodes. httpGetters ?p n = Some \<lparr>baseURL = n @ basePath p\<rparr>"
    by (simp add: Set_peers_fields)
  have d: "ring_nodes ?m \<subseteq> dom (httpGetters ?p)" unfolding b by (rule ring_nodes_subset)
  have e: "\<exists>res. PickPeer ?p key = Inr res" by (auto simp: PickPeer_def a Let_def)
  have f: "Get ?m key \<in> set nodes \<and> g = Some \<lparr>baseURL = Get ?m key @ basePath p\<rparr>"
    if "PickPeer ?p key = Inr (g, True)" for g
  proof -
    from that have ne: "Get ?m key \<noteq> []" and g: "g = httpGetters ?p (Get ?m key)"
      by (auto simp: PickPeer_def a Let_def split: if_splits)
    from ne have "keys ?m \<noteq> []" by (auto simp: Get_empty)
    then have "Get ?m key \<in> set nodes" by (rule Get_in_nodes)
    then show ?thesis using g by (simp add: Set_peers_fields)
  qed
  show ?thesis using a b c d e f by blast
qed

theorem setPeers_consistent_witness:
  "dom (httpGetters (Set_peers (NewHttpPool ''A'') [''B''])) = {''B''} \<and>
   httpGetters (Set_peers (NewHttpPool ''A'') [''B'']) ''B'' = Some \<lparr>baseURL = ''B/_cache/''\<rparr> \<and>
   ring_nodes (Add (New defaultReplicate None) [''B'']) = {''B''}"
proof -
  let ?P = "Set_peers (NewHttpPool ''A'') [''B'']"
  let ?m = "Add (New defaultReplicate None) [''B'']"
  note t = setPeers_consistent[of "NewHttpPool ''A''" "[''B'']" "''k''"]
  from t have d: "dom (httpGetters ?P) = set [''B'']" by blast
  from t have s: "ring_nodes ?m \<subseteq> dom (httpGetters ?P)" by blast
  from t have c: "\<forall>n\<in>set [''B'']. httpGetters ?P n = Some \<lparr>baseURL = n @ basePath (NewHttpPool ''A'')\<rparr>"
    by blast
  have ne: "keys ?m \<noteq> []"
    using keys_nonempty_iff[of defaultReplicate None "[''B'']"] by (simp add: defaultReplicate_def)
  then have "ring_nodes ?m \<noteq> {}" by (simp add: ring_nodes_def)
  with s d have r: "ring_nodes ?m = {''B''}" by auto
  from c have "httpGetters ?P ''B'' = Some \<lparr>baseURL = ''B/_cache/''\<rparr>"
    by (simp add: NewHttpPool_def defaultBasePath_def)
  with d r show ?thesis by simp
qed

lemma collide_eval:
  "foldl crc_update 0 ''http://comlbzg:8001'' = foldl crc_update 0 ''http://prourxh:8001''"
  by (simp add: crc_update_def funpow8)

lemma collide_points:
  "points ChecksumIEEE r ''http://comlbzg:8001'' = points ChecksumIEEE r ''http://prourxh:8001''"
  unfolding points_def
  using ChecksumIEEE_collide[OF _ collide_eval, where suf="[]"] by simp

theorem setPeers_shadowed_counterexample:
  "''http://comlbzg:8001'' \<in>
     dom (httpGetters (Set_peers (NewHttpPool ''http://localhost:8001'')
            [''http://comlbzg:8001'', ''http://prourxh:8001''])) \<and>
   ''http://comlbzg:8001'' \<notin>
     ring_nodes (Add (New defaultReplicate None) [''http://comlbzg:8001'', ''http://prourxh:8001'']) \<and>
   ring_nodes (Add (New defaultReplicate None) [''http://comlbzg:8001'', ''http://prourxh:8001'']) \<noteq>
     dom (httpGetters (Set_peers (NewHttpPool ''http://localhost:8001'')
            [''http://comlbzg:8001'', ''http://prourxh:8001'']))"
proof -
  let ?a = "''http://comlbzg:8001''" and ?b = "''http://prourxh:8001''"
  let ?m = "Add (New defaultReplicate None) [?a, ?b]"
  have m: "?m = Add (Add (New defaultReplicate None) [?a]) [?b]" by (simp add: Add_Add)
  have h: "hash (New defaultReplicate None) = ChecksumIEEE" by (simp add: New_def)
  have "Get ?m key \<noteq> ?a" for key
    unfolding m by (rule shadowed_unreachable) (simp_all add: h collide_points)
  then have g: "\<forall>key. Get ?m key \<noteq> ?a" by blast
  have out: "?a \<notin> ring_nodes ?m"
  proof
    assume "?a \<in> ring_nodes ?m"
    then obtain key where "Get ?m key = ?a"
      using ring_nodes_Get by blast
    with g show False by blast
  qed
  have inn: "?a \<in> dom (httpGetters (Set_peers (NewHttpPool ''http://localhost:8001'') [?a, ?b]))"
    by (simp add: dom_Set_peers)
  from out inn show ?thesis by metis
qed

section \<open>The server face\<close>


lemma Code_http_Error [simp]: "Code (http_Error msg code) = code"
  by (simp add: http_Error_def)

text \<open>
  The prefix check of the handler. A request whose path does not begin with the base
  path makes the handler panic with a message that carries the path, before anything is
  written: the call has no ordinary result. Whether the panic ends this request alone or
  the whole process is decided by the caller of the handler and by the Go run time; the
  repository has no \<^verbatim>\<open>recover\<close> and no serving loop, so that part of C5 has no
  counterpart here.
\<close>

lemma bad_prefix_panics:
  assumes "\<not> HasPrefix (Path r) (basePath p)"
  shows "ServeHTTP env p r = Inl (Panic (''HTTPPool serving unexpected path: '' @ Path r)) \<and>
         (\<forall>resp. ServeHTTP env p r \<noteq> Inr resp)"
  using assms by (simp add: ServeHTTP_def)

lemma bad_prefix_panics_example:
  "\<not> HasPrefix ''/api/scores/Tom'' (basePath (NewHttpPool ''A'')) \<and>
   ServeHTTP example_server (NewHttpPool ''A'') \<lparr>Method = ''GET'', Path = ''/api/scores/Tom''\<rparr> =
     Inl (Panic ''HTTPPool serving unexpected path: /api/scores/Tom'')"
proof -
  have h: "\<not> HasPrefix (Path \<lparr>Method = ''GET'', Path = ''/api/scores/Tom''\<rparr>) (basePath (NewHttpPool ''A''))"
    by (simp add: HasPrefix_def NewHttpPool_def defaultBasePath_def)
  from bad_prefix_panics[OF h, of example_server] h show ?thesis by simp
qed




section \<open>The peer client\<close>

lemma Get_read_error_lost:
  assumes "http_Get env (baseURL h @ QueryEscape (Group req) @ ''/'' @ QueryEscape (Key req)) = Inr res"
    and "StatusCode res = 200" and "ReadAll_Body res = (bs, Some e)"
  shows "httpGetter_Get env h req =
     (case Unmarshal env bs of
        Inl d \<Rightarrow> Inl (''decoding response body: '' @ d)
      | Inr out \<Rightarrow> Inr out)"
  using assms by (simp add: httpGetter_Get_def Let_def split: sum.splits)

lemma Get_status_error:
  assumes "http_Get env (baseURL h @ QueryEscape (Group req) @ ''/'' @ QueryEscape (Key req)) = Inr res"
    and "StatusCode res \<noteq> 200"
  shows "httpGetter_Get env h req = Inl (''server returned: '' @ Status res)"
  using assms by (simp add: httpGetter_Get_def Let_def)

text \<open>
  C7 at a failing input. The peer answers \<^verbatim>\<open>200 OK\<close> and the reading of its body fails
  with \<^verbatim>\<open>unexpected EOF\<close>. When no byte was delivered, \<^verbatim>\<open>Get\<close> returns no error at all,
  with an empty value in \<^verbatim>\<open>out\<close>; when one byte was delivered, it returns a decoding
  error. In neither case is the reading error returned.
\<close>

theorem read_error_swallowed:
  "httpGetter_Get (broken_body []) \<lparr>baseURL = ''http://localhost:8002/_cache/''\<rparr>
      \<lparr>Group = ''scores'', Key = ''Tom''\<rparr> = Inr \<lparr>Value = []\<rparr> \<and>
   httpGetter_Get (broken_body [CHR 0x0A]) \<lparr>baseURL = ''http://localhost:8002/_cache/''\<rparr>
      \<lparr>Group = ''scores'', Key = ''Tom''\<rparr> = Inl ''decoding response body: unexpected EOF''"
  by (simp add: httpGetter_Get_def broken_body_def example_Unmarshal_def Let_def)

end
